theory Spec2Isabelle
  imports Main
begin

section \<open>Data model of the Boardie store\<close>

text \<open>
  The persistence layer is the class \<open>BoardieDB\<close>. Its fallback backend keeps one JSON
  document \<open>{posts: [...], tags: [...], settings: {...}}\<close> in localStorage; every operation
  parses the document, changes the parsed copy and writes it back. The document is modelled
  by the record \<open>store\<close> and every operation passes it explicitly.

  Timestamps are the strings of \<open>new Date().toISOString()\<close>. They have a fixed width, so
  comparing the strings and comparing the parsed dates both agree with the order of the
  instants; a timestamp is modelled by the number of the instant. A field that a JavaScript
  object may lack is an \<open>option\<close>. The field \<open>id\<close> is called \<open>post_id\<close> here; the empty
  string stands for an identifier that is absent (\<open>!post.id\<close> holds for both).
\<close>

type_synonym timestamp = nat

record post =
  post_id :: string
  url :: string
  platform :: string
  title :: "string option"
  description :: "string option"
  tags :: "string list option"
  dateAdded :: "timestamp option"
  updatedAt :: "timestamp option"
  user_id :: "string option"

record tag =
  name :: string
  count :: int

record store =
  posts :: "post list"
  tagsStore :: "tag list"

text \<open>The errors the store raises: \<open>Error('Post with this URL already exists')\<close>,
  \<open>Error('Post not found')\<close>, and the error event of a failed backend request.\<close>

datatype error = DuplicateURL | NotFound | StorageError

text \<open>What an operation reads from its surroundings: the clock and \<open>crypto.randomUUID()\<close>.\<close>

record env =
  now :: timestamp
  uuid :: string

subsection \<open>Array helpers\<close>

text \<open>\<open>Array.prototype.findIndex\<close>; the result \<open>-1\<close> is \<open>None\<close>.\<close>

fun findIndex :: "('a \<Rightarrow> bool) \<Rightarrow> 'a list \<Rightarrow> nat option" where
  "findIndex P [] = None"
| "findIndex P (x # xs) = (if P x then Some 0 else map_option Suc (findIndex P xs))"

text \<open>\<open>xs.splice(k, 1)\<close> for an index inside the array.\<close>

definition splice1 :: "nat \<Rightarrow> 'a list \<Rightarrow> 'a list" where
  "splice1 k xs = take k xs @ drop (Suc k) xs"

text \<open>\<open>post.tags || []\<close>.\<close>

definition tagsOf :: "post \<Rightarrow> string list" where
  "tagsOf p = (case tags p of None \<Rightarrow> [] | Some ts \<Rightarrow> ts)"

subsection \<open>Tag counts\<close>

text \<open>The body of the loops that raise a tag's count (addPost, updatePost): the record found
  by name has its count incremented, and a tag with no record gets one with count 1.\<close>

definition incrementTag :: "string \<Rightarrow> tag list \<Rightarrow> tag list" where
  "incrementTag t ts =
     (case findIndex (\<lambda>r. name r = t) ts of
        Some k \<Rightarrow> ts[k := (ts ! k)\<lparr>count := count (ts ! k) + 1\<rparr>]
      | None \<Rightarrow> ts @ [\<lparr>name = t, count = 1\<rparr>])"

text \<open>The body of the loops that lower a tag's count (updatePost, deletePost):
  \<open>Math.max(0, count - 1)\<close>, and the record is spliced out when the count is 0.\<close>

definition decrementTag :: "string \<Rightarrow> tag list \<Rightarrow> tag list" where
  "decrementTag t ts =
     (case findIndex (\<lambda>r. name r = t) ts of
        Some k \<Rightarrow>
          (let c = max 0 (count (ts ! k) - 1)
           in if c = 0 then splice1 k ts else ts[k := (ts ! k)\<lparr>count := c\<rparr>])
      | None \<Rightarrow> ts)"

section \<open>Operations of the fallback backend\<close>

text \<open>
  The operations are modelled for a store that is initialised. The hook at the end of each
  write (\<open>if (sync && this.isOnline && this.currentUser)\<close>) pushes onto \<open>syncQueue\<close> and
  starts a sync cycle; it does not touch the document, and the parameter \<open>sync\<close> with it is
  left out of the model.
\<close>

subsection \<open>getPostById\<close>

text \<open>\<open>data.posts.find(post => post.id === id) || null\<close>.\<close>

definition getPostById :: "string \<Rightarrow> store \<Rightarrow> post option" where
  "getPostById i s = find (\<lambda>p. post_id p = i) (posts s)"

subsection \<open>addPost\<close>

text \<open>The identifier and the timestamps are set on the argument before the backend is
  chosen: \<open>post.dateAdded = post.dateAdded || now; post.updatedAt = now\<close>.\<close>

definition stamp :: "env \<Rightarrow> post \<Rightarrow> post" where
  "stamp e p =
     (let p1 = (if post_id p = [] then p\<lparr>post_id := uuid e\<rparr> else p)
      in p1\<lparr>dateAdded := (case dateAdded p1 of None \<Rightarrow> Some (now e) | Some d \<Rightarrow> Some d),
             updatedAt := Some (now e)\<rparr>)"

definition addPost :: "env \<Rightarrow> post \<Rightarrow> store \<Rightarrow> (error + post) \<times> store" where
  "addPost e p0 s =
     (let p = stamp e p0
      in case findIndex (\<lambda>q. url q = url p) (posts s) of
           Some k \<Rightarrow> (Inl DuplicateURL, s)
         | None \<Rightarrow>
             (Inr p, s\<lparr>posts := posts s @ [p],
                       tagsStore := fold incrementTag (tagsOf p) (tagsStore s)\<rparr>))"

subsection \<open>updatePost\<close>

text \<open>The part of updatePost after \<open>await this.getPostById(post.id)\<close>: it gets the post
  with its new timestamp and what the lookup returned.\<close>

definition updatePost_rest :: "post \<Rightarrow> post option \<Rightarrow> store \<Rightarrow> (error + post) \<times> store" where
  "updatePost_rest p existingPost s =
     (case existingPost of
        None \<Rightarrow> (Inl NotFound, s)
      | Some ex \<Rightarrow>
          (let oldTags = tagsOf ex;
               newTags = tagsOf p;
               tagsToAdd = filter (\<lambda>t. t \<notin> set oldTags) newTags;
               tagsToRemove = filter (\<lambda>t. t \<notin> set newTags) oldTags
           in case findIndex (\<lambda>q. post_id q = post_id p) (posts s) of
                None \<Rightarrow> (Inl NotFound, s)
              | Some k \<Rightarrow>
                  (Inr p, s\<lparr>posts := (posts s)[k := p],
                            tagsStore := fold decrementTag tagsToRemove
                                           (fold incrementTag tagsToAdd (tagsStore s))\<rparr>)))"

definition updatePost :: "env \<Rightarrow> post \<Rightarrow> store \<Rightarrow> (error + post) \<times> store" where
  "updatePost e p0 s =
     (let p = p0\<lparr>updatedAt := Some (now e)\<rparr>
      in updatePost_rest p (getPostById (post_id p) s) s)"

subsection \<open>deletePost\<close>

text \<open>The body of the \<open>try\<close> block after \<open>await this.getPostById(id)\<close>.\<close>

definition deletePost_rest :: "string \<Rightarrow> post option \<Rightarrow> store \<Rightarrow> (error + bool) \<times> store" where
  "deletePost_rest i existingPost s =
     (case existingPost of
        None \<Rightarrow> (Inl NotFound, s)
      | Some ex \<Rightarrow>
          (case findIndex (\<lambda>q. post_id q = i) (posts s) of
             None \<Rightarrow> (Inl NotFound, s)
           | Some k \<Rightarrow>
               (Inr True, s\<lparr>posts := splice1 k (posts s),
                            tagsStore := fold decrementTag (tagsOf ex) (tagsStore s)\<rparr>)))"

text \<open>The \<open>catch\<close> block of deletePost logs the error and returns \<open>false\<close>.\<close>

definition deletePost_catch :: "(error + bool) \<times> store \<Rightarrow> (error + bool) \<times> store" where
  "deletePost_catch r = (case fst r of Inl e \<Rightarrow> (Inr False, snd r) | Inr b \<Rightarrow> r)"

definition deletePost :: "string \<Rightarrow> store \<Rightarrow> (error + bool) \<times> store" where
  "deletePost i s = deletePost_catch (deletePost_rest i (getPostById i s) s)"

section \<open>getAllPosts\<close>

record options =
  limit :: "int option"
  offset :: "int option"
  sortBy :: "string option"
  sortOrder :: "string option"
  filterTags :: "string list option"
  searchTerm :: "string option"
  platform_o :: "string option"

text \<open>\<open>getAllPosts()\<close> without an argument: \<open>options = {}\<close>.\<close>

definition noOptions :: options where
  "noOptions = \<lparr>limit = None, offset = None, sortBy = None, sortOrder = None,
     filterTags = None, searchTerm = None, platform_o = None\<rparr>"

subsection \<open>Strings\<close>

text \<open>\<open>String.prototype.toLowerCase\<close> on the letters of ASCII.\<close>

definition toLowerChar :: "char \<Rightarrow> char" where
  "toLowerChar c =
     (case map_of (zip ''ABCDEFGHIJKLMNOPQRSTUVWXYZ'' ''abcdefghijklmnopqrstuvwxyz'') c of
        Some l \<Rightarrow> l
      | None \<Rightarrow> c)"

definition toLowerCase :: "string \<Rightarrow> string" where
  "toLowerCase s = map toLowerChar s"

text \<open>\<open>s.includes(t)\<close>: \<open>t\<close> occurs in \<open>s\<close> as a substring.\<close>

fun includes_str :: "string \<Rightarrow> string \<Rightarrow> bool" where
  "includes_str [] t = (t = [])"
| "includes_str (c # cs) t = (take (length t) (c # cs) = t \<or> includes_str cs t)"

text \<open>\<open>a.localeCompare(b)\<close> as the three-way comparison by character codes, which is the
  collation order on the platform names the application stores (lower-case ASCII words).\<close>

fun localeCompare :: "string \<Rightarrow> string \<Rightarrow> int" where
  "localeCompare [] [] = 0"
| "localeCompare [] (b # bs) = - 1"
| "localeCompare (a # as) [] = 1"
| "localeCompare (a # as) (b # bs) =
     (if (of_char a :: nat) < of_char b then - 1
      else if (of_char b :: nat) < of_char a then 1
      else localeCompare as bs)"

subsection \<open>Sorting and slicing\<close>

text \<open>\<open>Array.prototype.sort\<close> with a comparison function is stable: an element moves in
  front of another one only when the comparison is positive. The model inserts the elements
  from the right, each in front of the first element it does not exceed.\<close>

fun insertBy :: "('a \<Rightarrow> 'a \<Rightarrow> int) \<Rightarrow> 'a \<Rightarrow> 'a list \<Rightarrow> 'a list" where
  "insertBy cmp x [] = [x]"
| "insertBy cmp x (y # ys) = (if cmp x y \<le> 0 then x # y # ys else y # insertBy cmp x ys)"

definition sortWith :: "('a \<Rightarrow> 'a \<Rightarrow> int) \<Rightarrow> 'a list \<Rightarrow> 'a list" where
  "sortWith cmp xs = foldr (insertBy cmp) xs []"

text \<open>\<open>xs.slice(start, end)\<close>; a negative index counts from the end of the array.\<close>

definition slice :: "int \<Rightarrow> int \<Rightarrow> 'a list \<Rightarrow> 'a list" where
  "slice start end xs =
     (let len = int (length xs);
          k = (if start < 0 then max (len + start) 0 else min start len);
          f = (if end < 0 then max (len + end) 0 else min end len)
      in take (nat (f - k)) (drop (nat k) xs))"

subsection \<open>The query\<close>

text \<open>\<open>new Date(a.dateAdded) - new Date(b.dateAdded)\<close>. Without a date the difference is
  \<open>NaN\<close>, which \<open>sort\<close> takes for 0.\<close>

definition dateDifference :: "post \<Rightarrow> post \<Rightarrow> int" where
  "dateDifference a b =
     (case (dateAdded a, dateAdded b) of
        (Some x, Some y) \<Rightarrow> int x - int y
      | _ \<Rightarrow> 0)"

definition comparePosts :: "options \<Rightarrow> post \<Rightarrow> post \<Rightarrow> int" where
  "comparePosts opts a b =
     (if sortBy opts = Some ''platform''
      then localeCompare (platform a) (platform b) * (if sortOrder opts = Some ''asc'' then 1 else - 1)
      else dateDifference a b * (if sortOrder opts = Some ''asc'' then 1 else - 1))"

definition matchesTags :: "string list \<Rightarrow> post \<Rightarrow> bool" where
  "matchesTags ft p = list_all (\<lambda>t. t \<in> set (tagsOf p)) ft"

definition matchesSearch :: "string \<Rightarrow> post \<Rightarrow> bool" where
  "matchesSearch term p =
     (includes_str (toLowerCase (url p)) term
      \<or> (case title p of None \<Rightarrow> False | Some t \<Rightarrow> t \<noteq> [] \<and> includes_str (toLowerCase t) term)
      \<or> (case description p of None \<Rightarrow> False | Some d \<Rightarrow> d \<noteq> [] \<and> includes_str (toLowerCase d) term)
      \<or> list_ex (\<lambda>t. includes_str (toLowerCase t) term) (tagsOf p))"

text \<open>The filters, in the order of the source: tags, platform, search term. Each one is
  applied only when its option is truthy.\<close>

definition applyFilters :: "options \<Rightarrow> post list \<Rightarrow> post list" where
  "applyFilters opts ps =
     (let ps1 = (case filterTags opts of
                   Some ft \<Rightarrow> if ft \<noteq> [] then filter (matchesTags ft) ps else ps
                 | None \<Rightarrow> ps);
          ps2 = (case platform_o opts of
                   Some pl \<Rightarrow> if pl \<noteq> [] then filter (\<lambda>p. platform p = pl) ps1 else ps1
                 | None \<Rightarrow> ps1)
      in case searchTerm opts of
           Some st \<Rightarrow> if st \<noteq> [] then filter (matchesSearch (toLowerCase st)) ps2 else ps2
         | None \<Rightarrow> ps2)"

text \<open>\<open>if (limit) { const start = offset || 0; posts = posts.slice(start, start + limit) }\<close>.\<close>

definition paginate :: "options \<Rightarrow> post list \<Rightarrow> post list" where
  "paginate opts ps =
     (case limit opts of
        None \<Rightarrow> ps
      | Some l \<Rightarrow>
          if l = 0 then ps
          else (let start = (case offset opts of None \<Rightarrow> 0 | Some k \<Rightarrow> k)
                in slice start (start + l) ps))"

text \<open>Filtering, sorting and pagination are written twice in the source, once in the
  success handler of the IndexedDB request and once for the fallback document, with the
  same text.\<close>

definition queryPosts :: "options \<Rightarrow> post list \<Rightarrow> post list" where
  "queryPosts opts ps = paginate opts (sortWith (comparePosts opts) (applyFilters opts ps))"

text \<open>The fallback backend queries the posts of the parsed document.\<close>

definition getAllPosts :: "options \<Rightarrow> store \<Rightarrow> post list" where
  "getAllPosts opts s = queryPosts opts (posts s)"

text \<open>The state of the promise that an operation returns: fulfilled with a value, rejected
  with an error, or never settled.\<close>

datatype 'a promise = Resolved 'a | Rejected error | Pending

text \<open>The two reads of the fallback backend with their \<open>try\<close> and \<open>catch\<close>. The document
  is \<open>None\<close> when it cannot be read (\<open>JSON.parse\<close> throws, or yields \<open>null\<close> and the access
  to \<open>data.posts\<close> throws); the \<open>catch\<close> block then returns the empty array, or \<open>null\<close>.\<close>

definition getAllPosts_fallback :: "options \<Rightarrow> store option \<Rightarrow> (post list) promise" where
  "getAllPosts_fallback opts doc =
     (case doc of None \<Rightarrow> Resolved [] | Some s \<Rightarrow> Resolved (getAllPosts opts s))"

definition getPostById_fallback :: "string \<Rightarrow> store option \<Rightarrow> (post option) promise" where
  "getPostById_fallback i doc =
     (case doc of None \<Rightarrow> Resolved None | Some s \<Rightarrow> Resolved (getPostById i s))"

section \<open>Reads of the IndexedDB backend\<close>

text \<open>
  In the IndexedDB backend a read returns \<open>new Promise((resolve, reject) => ...)\<close> from
  inside its \<open>try\<close> block, without awaiting it. Everything else happens in the executor of
  that promise: it opens the transaction, issues one request and installs the two handlers.
  When \<open>this.db.transaction(...)\<close> or the request call throws, the throw is inside the
  executor and rejects the promise; when the request ends with its error event, the error
  handler rejects it with \<open>event.target.error\<close>; the success handler resolves it. The
  \<open>catch\<close> block of the operation runs in none of these cases.
\<close>

datatype 'a idbRead = TransactionThrows error | RequestError error | RequestSuccess 'a

definition getAllPosts_indexed :: "options \<Rightarrow> (post list) idbRead \<Rightarrow> (post list) promise" where
  "getAllPosts_indexed opts r =
     (case r of
        TransactionThrows e \<Rightarrow> Rejected e
      | RequestError e \<Rightarrow> Rejected e
      | RequestSuccess ps \<Rightarrow> Resolved (queryPosts opts ps))"

definition getPostById_indexed :: "(post option) idbRead \<Rightarrow> (post option) promise" where
  "getPostById_indexed r =
     (case r of
        TransactionThrows e \<Rightarrow> Rejected e
      | RequestError e \<Rightarrow> Rejected e
      | RequestSuccess x \<Rightarrow> Resolved x)"

section \<open>Operations invoked before the store is ready\<close>

text \<open>
  Every operation starts with \<open>if (!this.isInitialized)\<close>: it then pushes a closure onto
  \<open>pendingOperations\<close> and returns a new promise. A closure is determined by the operation
  and its arguments, so the queue is a list of calls.
\<close>

datatype call =
    AddPost post
  | GetAllPosts options
  | GetPostById string
  | UpdatePost post
  | DeletePost string

datatype result =
    PostResult post
  | PostsResult "post list"
  | LookupResult "post option"
  | BoolResult bool

record boardie =
  isInitialized :: bool
  pendingOperations :: "call list"
  document :: store

text \<open>An asynchronous function that throws rejects its promise.\<close>

definition settle :: "('a \<Rightarrow> result) \<Rightarrow> error + 'a \<Rightarrow> result promise" where
  "settle f r = (case r of Inl e \<Rightarrow> Rejected e | Inr v \<Rightarrow> Resolved (f v))"

text \<open>
  A call of an asynchronous function runs up to its first \<open>await\<close>. In the fallback backend
  addPost, getAllPosts and getPostById have none and are finished when the call returns;
  updatePost and deletePost stop at \<open>await this.getPostById(...)\<close> with the result of the
  lookup in hand, and go on in a later microtask.
\<close>

datatype task =
    Settled "result promise"
  | UpdateAwaiting post "post option"
  | DeleteAwaiting string "post option"

fun start :: "env \<Rightarrow> call \<Rightarrow> store \<Rightarrow> task \<times> store" where
  "start e (AddPost p) s = (Settled (settle PostResult (fst (addPost e p s))), snd (addPost e p s))"
| "start e (GetAllPosts opts) s = (Settled (Resolved (PostsResult (getAllPosts opts s))), s)"
| "start e (GetPostById i) s = (Settled (Resolved (LookupResult (getPostById i s))), s)"
| "start e (UpdatePost p) s =
     (UpdateAwaiting (p\<lparr>updatedAt := Some (now e)\<rparr>) (getPostById (post_id p) s), s)"
| "start e (DeletePost i) s = (DeleteAwaiting i (getPostById i s), s)"

fun resume :: "task \<Rightarrow> store \<Rightarrow> result promise \<times> store" where
  "resume (Settled r) s = (r, s)"
| "resume (UpdateAwaiting p ex) s =
     (settle PostResult (fst (updatePost_rest p ex s)), snd (updatePost_rest p ex s))"
| "resume (DeleteAwaiting i ex) s =
     (settle BoolResult (fst (deletePost_catch (deletePost_rest i ex s))),
      snd (deletePost_catch (deletePost_rest i ex s)))"

text \<open>A call on a store that is ready, awaited by its caller.\<close>

definition perform :: "env \<Rightarrow> call \<Rightarrow> store \<Rightarrow> result promise \<times> store" where
  "perform e c s = resume (fst (start e c s)) (snd (start e c s))"

text \<open>The promise of a deferred call is \<open>new Promise((resolve) => ...)\<close> and the closure is
  \<open>() => { this.addPost(post, sync).then(resolve) }\<close>: the outer promise is resolved when the
  inner call is fulfilled, and nothing settles it when the inner call rejects.\<close>

definition thenResolve :: "'a promise \<Rightarrow> 'a promise" where
  "thenResolve r = (case r of Resolved v \<Rightarrow> Resolved v | Rejected e \<Rightarrow> Pending | Pending \<Rightarrow> Pending)"

definition invoke :: "env \<Rightarrow> call \<Rightarrow> boardie \<Rightarrow> result promise \<times> boardie" where
  "invoke e c b =
     (if \<not> isInitialized b
      then (Pending, b\<lparr>pendingOperations := pendingOperations b @ [c]\<rparr>)
      else (fst (perform e c (document b)), b\<lparr>document := snd (perform e c (document b))\<rparr>))"

text \<open>\<open>processPendingOperations\<close> shifts and calls the closures in one synchronous loop, so
  every queued call is started, in the order of the queue, before any of them is resumed.
  The \<open>k\<close>-th call reads the clock \<open>envs k\<close>.\<close>

fun startAll :: "(nat \<Rightarrow> env) \<Rightarrow> nat \<Rightarrow> call list \<Rightarrow> store \<Rightarrow> task list \<times> store" where
  "startAll envs k [] s = ([], s)"
| "startAll envs k (c # cs) s =
     (fst (start (envs k) c s) # fst (startAll envs (Suc k) cs (snd (start (envs k) c s))),
      snd (startAll envs (Suc k) cs (snd (start (envs k) c s))))"

fun resumeAll :: "task list \<Rightarrow> store \<Rightarrow> result promise list \<times> store" where
  "resumeAll [] s = ([], s)"
| "resumeAll (t # ts) s =
     (fst (resume t s) # fst (resumeAll ts (snd (resume t s))),
      snd (resumeAll ts (snd (resume t s))))"

text \<open>The store becomes ready (\<open>this.isInitialized = true\<close>) and drains the queue; the result
  lists what becomes of the promises handed out to the callers, in the order of the calls.\<close>

definition processPendingOperations ::
  "(nat \<Rightarrow> env) \<Rightarrow> boardie \<Rightarrow> result promise list \<times> boardie" where
  "processPendingOperations envs b =
     (let started = startAll envs 0 (pendingOperations b) (document b);
          resumed = resumeAll (fst started) (snd started)
      in (map thenResolve (fst resumed),
          b\<lparr>isInitialized := True, pendingOperations := [], document := snd resumed\<rparr>))"

section \<open>Reconciliation with the remote store\<close>

text \<open>
  The part of \<open>syncWithSupabase\<close> after the remote posts are fetched. \<open>localPosts\<close> is the
  result of \<open>getAllPosts()\<close>, taken once before the loops. The first loop goes through the
  remote posts: one with no local post of its id is added with \<open>addPost(remotePost, false)\<close>,
  one that is newer than its local post is written with \<open>updatePost(remotePost, false)\<close>. An
  error thrown by either ends the cycle in the \<open>catch\<close> block, with the document as the
  calls before it left it.
\<close>

text \<open>\<open>remotePost.updatedAt > localPost.updatedAt\<close>; false when a side is missing.\<close>

definition newer :: "post \<Rightarrow> post \<Rightarrow> bool" where
  "newer r l = (case (updatedAt r, updatedAt l) of (Some a, Some b) \<Rightarrow> b < a | _ \<Rightarrow> False)"

fun mergeRemote ::
  "(nat \<Rightarrow> env) \<Rightarrow> nat \<Rightarrow> post list \<Rightarrow> post list \<Rightarrow> store \<Rightarrow> error option \<times> store" where
  "mergeRemote envs k localPosts [] s = (None, s)"
| "mergeRemote envs k localPosts (r # rs) s =
     (case find (\<lambda>p. post_id p = post_id r) localPosts of
        None \<Rightarrow>
          (case fst (addPost (envs k) r s) of
             Inl e \<Rightarrow> (Some e, snd (addPost (envs k) r s))
           | Inr a \<Rightarrow> mergeRemote envs (Suc k) localPosts rs (snd (addPost (envs k) r s)))
      | Some l \<Rightarrow>
          if newer r l
          then (case fst (updatePost (envs k) r s) of
                  Inl e \<Rightarrow> (Some e, snd (updatePost (envs k) r s))
                | Inr u \<Rightarrow> mergeRemote envs (Suc k) localPosts rs (snd (updatePost (envs k) r s)))
          else mergeRemote envs (Suc k) localPosts rs s)"

text \<open>addPost and updatePost assign to the object they are given, so after the first loop
  a remote post that was added carries the identifier and the timestamps addPost set, and
  one that was written carries the new \<open>updatedAt\<close>.\<close>

definition touched :: "post list \<Rightarrow> env \<Rightarrow> post \<Rightarrow> post" where
  "touched localPosts e r =
     (case find (\<lambda>p. post_id p = post_id r) localPosts of
        None \<Rightarrow> stamp e r
      | Some l \<Rightarrow> if newer r l then r\<lparr>updatedAt := Some (now e)\<rparr> else r)"

fun touchedAll :: "(nat \<Rightarrow> env) \<Rightarrow> nat \<Rightarrow> post list \<Rightarrow> post list \<Rightarrow> post list" where
  "touchedAll envs k localPosts [] = []"
| "touchedAll envs k localPosts (r # rs) =
     touched localPosts (envs k) r # touchedAll envs (Suc k) localPosts rs"

text \<open>The second loop: every local post with no remote post of its id is inserted remotely
  as \<open>{...localPost, user_id: this.currentUser.id}\<close>. The result lists the inserted rows;
  the cycle issues no other remote write after the fetch.\<close>

definition pushLocal :: "string \<Rightarrow> post list \<Rightarrow> post list \<Rightarrow> post list" where
  "pushLocal uid remotePosts localPosts =
     map (\<lambda>p. p\<lparr>user_id := Some uid\<rparr>)
       (filter (\<lambda>p. find (\<lambda>r. post_id r = post_id p) remotePosts = None) localPosts)"

definition reconcile ::
  "(nat \<Rightarrow> env) \<Rightarrow> string \<Rightarrow> post list \<Rightarrow> store \<Rightarrow> error option \<times> store \<times> post list" where
  "reconcile envs uid remotePosts s =
     (let localPosts = getAllPosts noOptions s;
          merged = mergeRemote envs 0 localPosts remotePosts s
      in case fst merged of
           Some e \<Rightarrow> (Some e, snd merged, [])
         | None \<Rightarrow>
             (None, snd merged,
              pushLocal uid (touchedAll envs 0 localPosts remotePosts) localPosts))"

section \<open>Sequences of operations\<close>




section \<open>Properties of the specification, as predicates\<close>



text \<open>The timestamps of a post are populated and self-consistent: \<open>updatedAt \<ge> dateAdded\<close>.\<close>

definition selfConsistent :: "post \<Rightarrow> bool" where
  "selfConsistent p =
     (case (dateAdded p, updatedAt p) of (Some d, Some u) \<Rightarrow> d \<le> u | _ \<Rightarrow> False)"



section \<open>Example data\<close>

definition emptyStore :: store where
  "emptyStore = \<lparr>posts = [], tagsStore = []\<rparr>"

definition envAt :: "timestamp \<Rightarrow> env" where
  "envAt n = \<lparr>now = n, uuid = ''6f1c''\<rparr>"

definition mkPost :: "string \<Rightarrow> string \<Rightarrow> string list \<Rightarrow> timestamp option \<Rightarrow> timestamp option \<Rightarrow> post" where
  "mkPost i u ts d up =
     \<lparr>post_id = i, url = u, platform = ''twitter'', title = None, description = None,
      tags = Some ts, dateAdded = d, updatedAt = up, user_id = None\<rparr>"

text \<open>A store with one post, as addPost leaves it at time 1.\<close>

definition postA :: post where
  "postA = mkPost ''a'' ''https://x.com/a/status/1'' [''news'', ''x''] (Some 1) (Some 1)"

definition storeA :: store where
  "storeA = \<lparr>posts = [postA],
             tagsStore = [\<lparr>name = ''news'', count = 1\<rparr>, \<lparr>name = ''x'', count = 1\<rparr>]\<rparr>"

text \<open>A store with two posts.\<close>

definition postC :: post where
  "postC = mkPost ''c'' ''https://youtu.be/c'' [''x''] (Some 2) (Some 2)"

definition storeAC :: store where
  "storeAC = \<lparr>posts = [postA, postC],
              tagsStore = [\<lparr>name = ''news'', count = 1\<rparr>, \<lparr>name = ''x'', count = 2\<rparr>]\<rparr>"

text \<open>A store that is not ready yet, over a document that an earlier session left in
  localStorage.\<close>

definition notReady :: boardie where
  "notReady = \<lparr>isInitialized = False, pendingOperations = [], document = storeA\<rparr>"

text \<open>A new post with the url of \<open>postA\<close>, and one with the same tag entered twice.\<close>

definition postDup :: post where
  "postDup = mkPost [] ''https://x.com/a/status/1'' [''later''] None None"

definition postTwice :: post where
  "postTwice = mkPost [] ''https://x.com/b/status/2'' [''x'', ''x''] None None"

definition postOnce :: post where
  "postOnce = mkPost [] ''https://x.com/b/status/2'' [''x''] None None"

text \<open>Two remote rows with the identifier of \<open>postA\<close>: one written after it, one before.\<close>

definition remoteNewer :: post where
  "remoteNewer = postA\<lparr>tags := Some [''news''], updatedAt := Some 2, user_id := Some ''me''\<rparr>"

definition remoteOlder :: post where
  "remoteOlder = postA\<lparr>tags := Some [''old''], updatedAt := Some 0, user_id := Some ''me''\<rparr>"

section \<open>Facts about the helpers\<close>

lemmas example_defs = emptyStore_def envAt_def mkPost_def postA_def storeA_def postC_def
  storeAC_def notReady_def postDup_def postTwice_def postOnce_def remoteNewer_def remoteOlder_def

lemmas operation_defs = addPost_def stamp_def updatePost_def updatePost_rest_def
  deletePost_def deletePost_rest_def deletePost_catch_def getPostById_def tagsOf_def
  incrementTag_def decrementTag_def splice1_def Let_def

lemma findIndex_None_iff: "findIndex P xs = None \<longleftrightarrow> (\<forall>x\<in>set xs. \<not> P x)"
  by (induction xs) auto

lemma findIndex_Some:
  "findIndex P xs = Some k \<Longrightarrow> k < length xs \<and> P (xs ! k) \<and> (\<forall>j<k. \<not> P (xs ! j))"
proof (induction xs arbitrary: k)
  case Nil
  then show ?case by simp
next
  case (Cons x xs)
  show ?case
  proof (cases "P x")
    case True
    with Cons.prems show ?thesis by simp
  next
    case False
    with Cons.prems obtain k' where k': "findIndex P xs = Some k'" "k = Suc k'"
      by auto
    from Cons.IH[OF k'(1)] False k'(2) show ?thesis
      by (auto simp: nth_Cons split: nat.splits)
  qed
qed

lemma url_stamp: "url (stamp e p) = url p"
  by (simp add: stamp_def Let_def)

section \<open>Duplicate URLs\<close>

text \<open>
  Claim C5. In the fallback backend, addPost of a post whose url is the url of a stored post
  fails with DuplicateURL, and the document (the stored posts and all tag counts) is the one
  from before the call: the error is thrown before anything is changed or written.
\<close>

theorem addPost_duplicate_url_rejected:
  assumes "q \<in> set (posts s)" and "url q = url p"
  shows "addPost e p s = (Inl DuplicateURL, s)"
proof -
  from assms have "findIndex (\<lambda>x. url x = url p) (posts s) \<noteq> None"
    by (auto simp: findIndex_None_iff)
  then obtain k where "findIndex (\<lambda>x. url x = url p) (posts s) = Some k"
    by blast
  then show ?thesis
    by (simp add: addPost_def Let_def url_stamp)
qed

theorem addPost_duplicate_url_rejected_witness:
  "postA \<in> set (posts storeA)
   \<and> url postA = url (mkPost ''b'' ''https://x.com/a/status/1'' [''later''] None None)
   \<and> addPost (envAt 7) (mkPost ''b'' ''https://x.com/a/status/1'' [''later''] None None) storeA
       = (Inl DuplicateURL, storeA)"
  using addPost_duplicate_url_rejected
    [of postA storeA "mkPost ''b'' ''https://x.com/a/status/1'' [''later''] None None" "envAt 7"]
  by (simp add: example_defs)

section \<open>Deleting a post that is not stored\<close>

text \<open>
  Claim C3 says that deletePost of an identifier no stored post has rejects with NotFound.
  The \<open>catch\<close> block of deletePost returns \<open>false\<close> instead of throwing again, as its
  documentation announces (\<open>@returns {Promise<boolean>} Success status\<close>): on a store
  without the identifier the promise is fulfilled with \<open>false\<close>.
\<close>

theorem deletePost_missing_counterexample:
  "fst (deletePost ''zz'' storeA) = Inr False \<and> fst (deletePost ''zz'' storeA) \<noteq> Inl NotFound"
  by (simp add: example_defs operation_defs)

text \<open>
  Claim C3, amended. For every identifier that no stored post has, deletePost is fulfilled
  with \<open>false\<close> (the NotFound error is caught and logged, not passed on), and the document
  is unchanged.
\<close>

theorem deletePost_missing_resolves_false:
  assumes "\<forall>p\<in>set (posts s). post_id p \<noteq> i"
  shows "deletePost i s = (Inr False, s)"
proof -
  from assms have "find (\<lambda>p. post_id p = i) (posts s) = None"
    by (simp add: find_None_iff)
  then show ?thesis
    by (simp add: deletePost_def getPostById_def deletePost_rest_def deletePost_catch_def)
qed

theorem deletePost_missing_resolves_false_witness:
  "list_all (\<lambda>p. post_id p \<noteq> ''zz'') (posts storeA) \<and> deletePost ''zz'' storeA = (Inr False, storeA)"
  using deletePost_missing_resolves_false [of storeA "''zz''"]
  by (simp add: example_defs)

section \<open>The creation date under updatePost\<close>




section \<open>Pagination\<close>

lemmas query_defs = getAllPosts_def queryPosts_def paginate_def applyFilters_def sortWith_def
  comparePosts_def dateDifference_def slice_def noOptions_def

text \<open>The comparison and the filters do not read \<open>limit\<close> and \<open>offset\<close>.\<close>

lemma comparePosts_page:
  "comparePosts (opts\<lparr>offset := a\<rparr>) = comparePosts opts"
  "comparePosts (opts\<lparr>limit := b\<rparr>) = comparePosts opts"
  by (simp_all add: comparePosts_def fun_eq_iff)

lemma applyFilters_page:
  "applyFilters (opts\<lparr>offset := a\<rparr>) = applyFilters opts"
  "applyFilters (opts\<lparr>limit := b\<rparr>) = applyFilters opts"
  by (simp_all add: applyFilters_def fun_eq_iff)

text \<open>A slice between two indices that are not negative is a \<open>take\<close> of a \<open>drop\<close>, also
  where an index is beyond the end of the array.\<close>

lemma slice_nonneg:
  assumes "0 \<le> a" and "a \<le> b"
  shows "slice a b xs = take (nat (b - a)) (drop (nat a) xs)"
proof -
  let ?len = "int (length xs)"
  have unfold: "slice a b xs = take (nat (min b ?len - min a ?len)) (drop (nat (min a ?len)) xs)"
    using assms by (simp add: slice_def Let_def)
  consider (inside) "b \<le> ?len" | (over) "a \<le> ?len" "?len < b" | (beyond) "?len < a"
    using assms by linarith
  then show ?thesis
  proof cases
    case inside
    with assms have "min b ?len = b" "min a ?len = a" by simp_all
    with unfold show ?thesis by simp
  next
    case over
    then have m: "min b ?len = ?len" "min a ?len = a" by simp_all
    have l: "length (drop (nat a) xs) = nat (?len - a)"
      using assms over by simp
    have "take (nat (?len - a)) (drop (nat a) xs) = drop (nat a) xs"
      using l by simp
    moreover have "take (nat (b - a)) (drop (nat a) xs) = drop (nat a) xs"
    proof (rule take_all)
      show "length (drop (nat a) xs) \<le> nat (b - a)"
        using l over assms by linarith
    qed
    ultimately show ?thesis using unfold m by simp
  next
    case beyond
    then have m: "min b ?len = ?len" "min a ?len = ?len" using assms by simp_all
    have "drop (nat a) xs = []" using beyond by simp
    with unfold m show ?thesis by simp
  qed
qed

lemma slice_pages:
  assumes "0 < n"
  shows "slice 0 (0 + n) xs @ slice n (n + n) xs = slice 0 (0 + 2 * n) xs"
proof -
  have a: "slice 0 (0 + n) xs = take (nat n) xs"
    using assms slice_nonneg[of 0 "0 + n" xs] by simp
  have b: "slice n (n + n) xs = take (nat n) (drop (nat n) xs)"
    using assms slice_nonneg[of n "n + n" xs] by simp
  have "nat (2 * n) = nat n + nat n" using assms by linarith
  then have c: "slice 0 (0 + 2 * n) xs = take (nat n + nat n) xs"
    using assms slice_nonneg[of 0 "0 + 2 * n" xs] by simp
  show ?thesis
    unfolding a b c by (simp add: take_add)
qed

text \<open>
  Claim C8. For fixed filter and sort options and every \<open>n > 0\<close>, the page
  \<open>{offset: 0, limit: n}\<close> followed by the page \<open>{offset: n, limit: n}\<close> is the result of
  \<open>{limit: 2n}\<close> on the same store.
\<close>

theorem getAllPosts_pagination_composes:
  assumes "0 < n"
  shows "getAllPosts (opts\<lparr>offset := Some 0, limit := Some n\<rparr>) s
           @ getAllPosts (opts\<lparr>offset := Some n, limit := Some n\<rparr>) s
         = getAllPosts (opts\<lparr>offset := None, limit := Some (2 * n)\<rparr>) s"
proof -
  let ?xs = "sortWith (comparePosts opts) (applyFilters opts (posts s))"
  have "getAllPosts (opts\<lparr>offset := Some 0, limit := Some n\<rparr>) s = slice 0 (0 + n) ?xs"
    using assms
    by (simp add: getAllPosts_def queryPosts_def paginate_def comparePosts_page applyFilters_page)
  moreover have "getAllPosts (opts\<lparr>offset := Some n, limit := Some n\<rparr>) s = slice n (n + n) ?xs"
    using assms
    by (simp add: getAllPosts_def queryPosts_def paginate_def comparePosts_page applyFilters_page)
  moreover have "getAllPosts (opts\<lparr>offset := None, limit := Some (2 * n)\<rparr>) s
      = slice 0 (0 + 2 * n) ?xs"
    using assms
    by (simp add: getAllPosts_def queryPosts_def paginate_def comparePosts_page applyFilters_page)
  ultimately show ?thesis
    using slice_pages[OF assms, of ?xs] by simp
qed

theorem getAllPosts_pagination_composes_witness:
  "(0::int) < 1
   \<and> getAllPosts (noOptions\<lparr>offset := Some 0, limit := Some 1\<rparr>) storeAC
       @ getAllPosts (noOptions\<lparr>offset := Some 1, limit := Some 1\<rparr>) storeAC
     = getAllPosts (noOptions\<lparr>offset := None, limit := Some (2 * 1)\<rparr>) storeAC
   \<and> getAllPosts (noOptions\<lparr>offset := Some 1, limit := Some 1\<rparr>) storeAC = [postA]"
proof -
  have "getAllPosts (noOptions\<lparr>offset := Some 1, limit := Some 1\<rparr>) storeAC = [postA]"
    by (simp add: query_defs example_defs)
  with getAllPosts_pagination_composes [of 1 noOptions storeAC] show ?thesis
    by simp
qed

text \<open>
  Claim C10. When the options have no \<open>limit\<close>, or the limit 0, getAllPosts does not read
  \<open>offset\<close>: it returns the whole filtered and sorted sequence, whatever the offset is.
\<close>

theorem getAllPosts_without_limit_ignores_offset:
  assumes "limit opts = None \<or> limit opts = Some 0"
  shows "getAllPosts opts s = sortWith (comparePosts opts) (applyFilters opts (posts s))
         \<and> getAllPosts (opts\<lparr>offset := off\<rparr>) s = getAllPosts opts s"
  using assms
  by (auto simp add: getAllPosts_def queryPosts_def paginate_def comparePosts_page
      applyFilters_page)

theorem getAllPosts_without_limit_ignores_offset_witness:
  "limit (noOptions\<lparr>limit := Some 0\<rparr>) = Some 0
   \<and> getAllPosts (noOptions\<lparr>limit := Some 0, offset := Some 1\<rparr>) storeAC
     = getAllPosts (noOptions\<lparr>limit := Some 0\<rparr>) storeAC
   \<and> getAllPosts (noOptions\<lparr>limit := Some 0, offset := Some 1\<rparr>) storeAC = [postC, postA]"
proof -
  have "getAllPosts (noOptions\<lparr>limit := Some 0, offset := Some 1\<rparr>) storeAC = [postC, postA]"
    by (simp add: query_defs example_defs)
  with getAllPosts_without_limit_ignores_offset
    [of "noOptions\<lparr>limit := Some 0\<rparr>" storeAC "Some 1"]
  show ?thesis
    by simp
qed

section \<open>Round trip of addPost and getPostById\<close>

lemma find_append_miss: "\<not> P y \<Longrightarrow> find P (xs @ [y]) = find P xs"
  by (induction xs) auto

lemma find_append_new:
  "\<forall>x\<in>set xs. \<not> P x \<Longrightarrow> P y \<Longrightarrow> find P (xs @ [y]) = Some y"
  by (induction xs) auto

lemma addPost_accepted:
  assumes "addPost e p s = (Inr r, s')"
  shows "r = stamp e p" and "posts s' = posts s @ [stamp e p]"
  using assms by (auto simp: addPost_def Let_def split: option.splits)

text \<open>
  Claim C6 says that the post read back after addPost has self-consistent timestamps,
  \<open>updatedAt \<ge> dateAdded\<close>. addPost keeps a \<open>dateAdded\<close> that the caller supplies
  (\<open>post.dateAdded || now\<close>) and always sets \<open>updatedAt\<close> to the clock: a post that comes
  with a creation date later than the clock of this device is accepted and stored with
  \<open>updatedAt < dateAdded\<close>.
\<close>

theorem addPost_future_date_counterexample:
  "addPost (envAt 5) (mkPost ''n'' ''https://x.com/n'' [] (Some 10) None) emptyStore
     = (Inr (mkPost ''n'' ''https://x.com/n'' [] (Some 10) (Some 5)),
        \<lparr>posts = [mkPost ''n'' ''https://x.com/n'' [] (Some 10) (Some 5)], tagsStore = []\<rparr>)
   \<and> getPostById ''n'' \<lparr>posts = [mkPost ''n'' ''https://x.com/n'' [] (Some 10) (Some 5)], tagsStore = []\<rparr>
     = Some (mkPost ''n'' ''https://x.com/n'' [] (Some 10) (Some 5))
   \<and> \<not> selfConsistent (mkPost ''n'' ''https://x.com/n'' [] (Some 10) (Some 5))"
  by (simp add: example_defs operation_defs selfConsistent_def)

text \<open>
  Claim C6, amended. For every post accepted by addPost whose identifier (the supplied one,
  or the generated one when none is supplied) is not the identifier of a post stored
  before, getPostById of that identifier returns the stored post. It agrees with the
  argument on url, platform, title, description, tags and owner, and on the identifier and
  the creation date when the caller supplied them; the identifier is not empty,
  \<open>dateAdded\<close> is the supplied date or else the time of the call, and \<open>updatedAt\<close> is the
  time of the call. The timestamps are self-consistent exactly when the caller supplied no
  creation date or one that is not later than the time of the call.
\<close>

theorem addPost_then_getPostById:
  assumes "addPost e p s = (Inr r, s')"
    and "\<forall>q\<in>set (posts s). post_id q \<noteq> post_id r"
    and "uuid e \<noteq> []"
  shows "getPostById (post_id r) s' = Some r
    \<and> url r = url p \<and> platform r = platform p \<and> title r = title p
    \<and> description r = description p \<and> tags r = tags p \<and> user_id r = user_id p
    \<and> post_id r = (if post_id p = [] then uuid e else post_id p) \<and> post_id r \<noteq> []
    \<and> dateAdded r = Some (case dateAdded p of None \<Rightarrow> now e | Some d \<Rightarrow> d)
    \<and> updatedAt r = Some (now e)
    \<and> selfConsistent r = (case dateAdded p of None \<Rightarrow> True | Some d \<Rightarrow> d \<le> now e)"
proof -
  note acc = addPost_accepted[OF assms(1)]
  have "getPostById (post_id r) s' = Some r"
    using assms(2) acc by (simp add: getPostById_def find_append_new)
  moreover have "url r = url p" "platform r = platform p" "title r = title p"
    "description r = description p" "tags r = tags p" "user_id r = user_id p"
    "updatedAt r = Some (now e)"
    using acc(1) by (simp_all add: stamp_def Let_def)
  moreover have "post_id r = (if post_id p = [] then uuid e else post_id p)"
    using acc(1) by (simp add: stamp_def Let_def)
  moreover have "post_id r \<noteq> []"
    using acc(1) assms(3) by (simp add: stamp_def Let_def)
  moreover have "dateAdded r = Some (case dateAdded p of None \<Rightarrow> now e | Some d \<Rightarrow> d)"
    using acc(1) by (simp add: stamp_def Let_def split: option.splits)
  moreover have "selfConsistent r = (case dateAdded p of None \<Rightarrow> True | Some d \<Rightarrow> d \<le> now e)"
    using acc(1) by (simp add: stamp_def Let_def selfConsistent_def split: option.splits)
  ultimately show ?thesis by blast
qed

theorem addPost_then_getPostById_witness:
  "addPost (envAt 7) postOnce storeA
     = (Inr (mkPost ''6f1c'' ''https://x.com/b/status/2'' [''x''] (Some 7) (Some 7)),
        \<lparr>posts = [postA, mkPost ''6f1c'' ''https://x.com/b/status/2'' [''x''] (Some 7) (Some 7)],
         tagsStore = [\<lparr>name = ''news'', count = 1\<rparr>, \<lparr>name = ''x'', count = 2\<rparr>]\<rparr>)
   \<and> list_all (\<lambda>q. post_id q \<noteq> ''6f1c'') (posts storeA)
   \<and> uuid (envAt 7) \<noteq> []
   \<and> getPostById ''6f1c''
        \<lparr>posts = [postA, mkPost ''6f1c'' ''https://x.com/b/status/2'' [''x''] (Some 7) (Some 7)],
         tagsStore = [\<lparr>name = ''news'', count = 1\<rparr>, \<lparr>name = ''x'', count = 2\<rparr>]\<rparr>
     = Some (mkPost ''6f1c'' ''https://x.com/b/status/2'' [''x''] (Some 7) (Some 7))
   \<and> selfConsistent (mkPost ''6f1c'' ''https://x.com/b/status/2'' [''x''] (Some 7) (Some 7))"
proof -
  have h: "addPost (envAt 7) postOnce storeA
     = (Inr (mkPost ''6f1c'' ''https://x.com/b/status/2'' [''x''] (Some 7) (Some 7)),
        \<lparr>posts = [postA, mkPost ''6f1c'' ''https://x.com/b/status/2'' [''x''] (Some 7) (Some 7)],
         tagsStore = [\<lparr>name = ''news'', count = 1\<rparr>, \<lparr>name = ''x'', count = 2\<rparr>]\<rparr>)"
    by (simp add: example_defs operation_defs)
  have i: "\<forall>q\<in>set (posts storeA). post_id q \<noteq> post_id (mkPost ''6f1c'' ''https://x.com/b/status/2'' [''x''] (Some 7) (Some 7))"
    by (simp add: example_defs)
  have u: "uuid (envAt 7) \<noteq> []"
    by (simp add: example_defs)
  from addPost_then_getPostById [OF h i u] h i u show ?thesis
    by (simp add: example_defs)
qed

section \<open>Errors of the backend in read operations\<close>

text \<open>
  Claim C4 says that getAllPosts and getPostById never reject, also when the read of the
  backend fails. In the IndexedDB backend the error handler of the request rejects the
  promise that the operation has already returned, so the \<open>catch\<close> block that would
  return the empty result never runs for it: a failed request rejects getAllPosts and
  getPostById with the error of the request. The \<open>catch\<close> blocks of both operations
  return \<open>[]\<close> and \<open>null\<close>, and in the fallback backend they do what the claim says (an
  unreadable document gives \<open>[]\<close> and \<open>null\<close>).
\<close>

theorem indexed_reads_reject_on_request_error:
  "getAllPosts_indexed opts (RequestError StorageError) = Rejected StorageError
   \<and> getPostById_indexed (RequestError StorageError) = Rejected StorageError
   \<and> getAllPosts_fallback opts None = Resolved []
   \<and> getPostById_fallback i None = Resolved None"
  by (simp add: getAllPosts_indexed_def getPostById_indexed_def getAllPosts_fallback_def
      getPostById_fallback_def)

section \<open>Calls deferred until the store is ready\<close>

text \<open>
  Claim C9 says that the promise of a call made before the store is ready settles as it
  would have, had the store been ready. The deferred closure passes only \<open>resolve\<close> to
  \<open>then\<close>: a deferred addPost of a url that is already stored is queued, runs when the
  queue is drained, and rejects with DuplicateURL, and the promise that the caller holds
  stays pending for ever. The same call on a ready store rejects with DuplicateURL.
\<close>

theorem deferred_rejection_never_settles:
  "snd (invoke (envAt 7) (AddPost postDup) notReady) = notReady\<lparr>pendingOperations := [AddPost postDup]\<rparr>
   \<and> fst (processPendingOperations (\<lambda>k. envAt 7) (notReady\<lparr>pendingOperations := [AddPost postDup]\<rparr>))
       = [Pending]
   \<and> fst (invoke (envAt 7) (AddPost postDup) (notReady\<lparr>isInitialized := True\<rparr>))
       = Rejected DuplicateURL"
  by (simp add: invoke_def processPendingOperations_def perform_def settle_def thenResolve_def
      example_defs operation_defs)

section \<open>The tag-count invariant\<close>


subsection \<open>The two loop bodies on the list of tag records\<close>




















subsection \<open>The loops, and counting posts\<close>












subsection \<open>Every operation maintains the invariant\<close>














section \<open>Reconciliation: the newer remote post wins\<close>

lemmas sync_defs = reconcile_def touched_def newer_def pushLocal_def

text \<open>Lookups of an identifier are not affected by writes for other identifiers.\<close>

lemma find_update_other:
  "k < length xs \<Longrightarrow> \<not> P (xs ! k) \<Longrightarrow> \<not> P y \<Longrightarrow> find P (xs[k := y]) = find P xs"
proof (induction xs arbitrary: k)
  case Nil
  then show ?case by simp
next
  case (Cons x xs)
  then show ?case by (cases k) auto
qed

lemma find_update_first:
  "findIndex P xs = Some k \<Longrightarrow> P y \<Longrightarrow> find P (xs[k := y]) = Some y"
proof (induction xs arbitrary: k)
  case Nil
  then show ?case by simp
next
  case (Cons x xs)
  then show ?case by (cases "P x") auto
qed

lemma post_id_stamp: "post_id (stamp e p) = (if post_id p = [] then uuid e else post_id p)"
  by (simp add: stamp_def Let_def)

lemma addPost_other_id:
  assumes "post_id r \<noteq> i" and "uuid e \<noteq> i"
  shows "getPostById i (snd (addPost e r s)) = getPostById i s"
proof (cases "findIndex (\<lambda>q. url q = url (stamp e r)) (posts s)")
  case None
  from assms have "post_id (stamp e r) \<noteq> i"
    by (simp add: post_id_stamp)
  with None show ?thesis
    by (simp add: addPost_def Let_def getPostById_def find_append_miss)
next
  case (Some k)
  then show ?thesis
    by (simp add: addPost_def Let_def)
qed

lemma updatePost_other_id:
  assumes "post_id r \<noteq> i"
  shows "getPostById i (snd (updatePost e r s)) = getPostById i s"
proof (cases "getPostById (post_id r) s")
  case None
  then show ?thesis
    by (simp add: updatePost_def updatePost_rest_def Let_def)
next
  case (Some ex)
  show ?thesis
  proof (cases "findIndex (\<lambda>q. post_id q = post_id r) (posts s)")
    case None
    with Some show ?thesis
      by (simp add: updatePost_def updatePost_rest_def Let_def)
  next
    case (Some k)
    from findIndex_Some[OF Some] assms
    have "k < length (posts s)" "post_id (posts s ! k) \<noteq> i"
      by auto
    with assms Some \<open>getPostById (post_id r) s = Some ex\<close> show ?thesis
      by (simp add: updatePost_def updatePost_rest_def Let_def getPostById_def find_update_other)
  qed
qed

lemma updatePost_same_id:
  assumes "fst (updatePost e r s) = Inr u"
  shows "getPostById (post_id r) (snd (updatePost e r s)) = Some (r\<lparr>updatedAt := Some (now e)\<rparr>)"
proof -
  from assms obtain k where k: "findIndex (\<lambda>q. post_id q = post_id r) (posts s) = Some k"
    and s': "posts (snd (updatePost e r s)) = (posts s)[k := r\<lparr>updatedAt := Some (now e)\<rparr>]"
    by (auto simp: updatePost_def updatePost_rest_def Let_def split: option.splits)
  from find_update_first[OF k, of "r\<lparr>updatedAt := Some (now e)\<rparr>"] s' show ?thesis
    by (simp add: getPostById_def)
qed

lemma mergeRemote_other_ids:
  assumes "\<forall>r\<in>set rs. post_id r \<noteq> i" and "\<forall>k. uuid (envs k) \<noteq> i"
  shows "getPostById i (snd (mergeRemote envs k lp rs s)) = getPostById i s"
  using assms(1)
proof (induction rs arbitrary: k s)
  case Nil
  then show ?case by simp
next
  case (Cons r rs)
  then have r: "post_id r \<noteq> i" and rs: "\<forall>r\<in>set rs. post_id r \<noteq> i"
    by simp_all
  note IH = Cons.IH[OF rs]
  from assms(2) have u: "uuid (envs k) \<noteq> i" by simp
  show ?case
  proof (cases "find (\<lambda>p. post_id p = post_id r) lp")
    case None
    show ?thesis
    proof (cases "fst (addPost (envs k) r s)")
      case (Inl e)
      with None show ?thesis
        by (simp add: addPost_other_id[OF r u])
    next
      case (Inr a)
      with None show ?thesis
        by (simp add: IH addPost_other_id[OF r u])
    qed
  next
    case (Some l)
    show ?thesis
    proof (cases "newer r l")
      case False
      with Some show ?thesis by (simp add: IH)
    next
      case True
      show ?thesis
      proof (cases "fst (updatePost (envs k) r s)")
        case (Inl e)
        with Some True show ?thesis
          by (simp add: updatePost_other_id[OF r])
      next
        case (Inr a)
        with Some True show ?thesis
          by (simp add: IH updatePost_other_id[OF r])
      qed
    qed
  qed
qed

lemma mergeRemote_append:
  "mergeRemote envs k lp (rs1 @ rs2) s =
     (if fst (mergeRemote envs k lp rs1 s) = None
      then mergeRemote envs (k + length rs1) lp rs2 (snd (mergeRemote envs k lp rs1 s))
      else mergeRemote envs k lp rs1 s)"
proof (induction rs1 arbitrary: k s)
  case Nil
  then show ?case by simp
next
  case (Cons r rs1)
  show ?case
    by (simp add: Cons.IH split: option.splits sum.splits)
qed

lemma set_insertBy: "set (insertBy cmp x xs) = insert x (set xs)"
  by (induction xs) (simp_all add: insert_commute)

lemma set_sortWith: "set (sortWith cmp xs) = set xs"
  by (induction xs) (simp_all add: sortWith_def set_insertBy)

lemma applyFilters_noOptions: "applyFilters noOptions ps = ps"
  by (simp add: applyFilters_def noOptions_def)

lemma paginate_noOptions: "paginate noOptions ps = ps"
  by (simp add: paginate_def noOptions_def)

lemma getAllPosts_noOptions:
  "getAllPosts noOptions s = sortWith (comparePosts noOptions) (posts s)"
  by (simp add: getAllPosts_def queryPosts_def paginate_noOptions applyFilters_noOptions)

lemma find_SomeD: "find P xs = Some y \<Longrightarrow> P y \<and> y \<in> set xs"
  by (induction xs) (simp_all split: if_splits)

lemma find_unique:
  assumes "x \<in> set xs" and "P x" and "\<forall>y\<in>set xs. P y \<longrightarrow> y = x"
  shows "find P xs = Some x"
proof (cases "find P xs")
  case None
  then have "\<not> P x" using assms(1) by (simp add: find_None_iff)
  with assms(2) show ?thesis by simp
next
  case (Some y)
  from find_SomeD[OF Some] assms(3) have "y = x" by blast
  with Some show ?thesis by simp
qed

lemma touchedAll_member:
  "r \<in> set rs \<Longrightarrow> \<exists>j. touched lp (envs j) r \<in> set (touchedAll envs k lp rs)"
proof (induction rs arbitrary: k)
  case Nil
  then show ?case by simp
next
  case (Cons a rs)
  show ?case
  proof (cases "r = a")
    case True
    then show ?thesis by auto
  next
    case False
    with Cons.prems have "r \<in> set rs" by simp
    from Cons.IH[OF this, of "Suc k"] show ?thesis by auto
  qed
qed

lemma post_id_touched:
  "find (\<lambda>p. post_id p = post_id r) lp = Some l \<Longrightarrow> post_id (touched lp e r) = post_id r"
  by (simp add: touched_def)

lemma pushLocal_skips_matched:
  assumes "t \<in> set ts" and "post_id t = i"
  shows "\<forall>q\<in>set (pushLocal uid ts lp). post_id q \<noteq> i"
proof
  fix q assume "q \<in> set (pushLocal uid ts lp)"
  then obtain p where p: "p \<in> set lp" "find (\<lambda>r. post_id r = post_id p) ts = None"
    and q: "q = p\<lparr>user_id := Some uid\<rparr>"
    by (auto simp: pushLocal_def)
  from p(2) assms(1) have "post_id t \<noteq> post_id p"
    by (simp add: find_None_iff)
  with assms(2) q show "post_id q \<noteq> i" by auto
qed

text \<open>
  Claim C2 says that after a sync cycle the local post is the remote post \<open>R\<close> when \<open>R\<close>
  is newer. The cycle writes \<open>R\<close> with updatePost, which sets \<open>updatedAt\<close> to the clock
  before it stores the post: the remote post written at time 2 is stored at time 5 with
  \<open>updatedAt = 5\<close>, and the local post is not \<open>R\<close>.
\<close>

theorem reconcile_refreshes_updatedAt_counterexample:
  "fst (reconcile (\<lambda>k. envAt 5) ''me'' [remoteNewer] storeA) = None
   \<and> getPostById ''a'' (fst (snd (reconcile (\<lambda>k. envAt 5) ''me'' [remoteNewer] storeA)))
       = Some (remoteNewer\<lparr>updatedAt := Some 5\<rparr>)
   \<and> getPostById ''a'' (fst (snd (reconcile (\<lambda>k. envAt 5) ''me'' [remoteNewer] storeA)))
       \<noteq> Some remoteNewer"
  by (simp add: sync_defs query_defs example_defs operation_defs)

text \<open>
  Claim C2, amended. Let \<open>L\<close> be the only local post with its identifier and \<open>R\<close> the
  only fetched remote post with that identifier, and let the reconciliation run to its end
  (no addPost or updatePost of the cycle throws; identifiers generated in the cycle are
  other ones). If \<open>R\<close> is newer than \<open>L\<close>, the local post for the identifier is then
  \<open>R\<close> with \<open>updatedAt\<close> set to the time at which the cycle wrote it, and \<open>R\<close> in every
  other field. If \<open>R\<close> is not newer, the local post is still \<open>L\<close>. In both cases no row
  that the reconciliation inserts remotely has the identifier, and inserts are its only
  remote writes, so it does not overwrite \<open>R\<close>.
\<close>

theorem reconcile_timestamp_wins:
  assumes local: "L \<in> set (posts s)" "post_id L = post_id R"
      "\<forall>p\<in>set (posts s). post_id p = post_id R \<longrightarrow> p = L"
    and remote: "remotePosts = before @ R # after" "\<forall>r\<in>set (before @ after). post_id r \<noteq> post_id R"
    and stamps: "updatedAt L = Some tLocal" "updatedAt R = Some tRemote"
    and fresh: "\<forall>k. uuid (envs k) \<noteq> post_id R"
    and completed: "reconcile envs uid remotePosts s = (None, s', pushed)"
  shows "getPostById (post_id R) s'
           = Some (if tLocal < tRemote then R\<lparr>updatedAt := Some (now (envs (length before)))\<rparr> else L)
         \<and> (\<forall>q\<in>set pushed. post_id q \<noteq> post_id R)"
proof -
  let ?i = "post_id R"
  let ?lp = "getAllPosts noOptions s"
  let ?k = "length before"
  have L_lp: "find (\<lambda>p. post_id p = ?i) ?lp = Some L"
  proof (rule find_unique)
    show "L \<in> set ?lp" using local(1) by (simp add: getAllPosts_noOptions set_sortWith)
    show "post_id L = ?i" by (rule local(2))
    show "\<forall>y\<in>set ?lp. post_id y = ?i \<longrightarrow> y = L"
      using local(3) by (simp add: getAllPosts_noOptions set_sortWith)
  qed
  have L_s: "getPostById ?i s = Some L"
    unfolding getPostById_def
  proof (rule find_unique)
    show "L \<in> set (posts s)" by (rule local(1))
    show "post_id L = ?i" by (rule local(2))
    show "\<forall>y\<in>set (posts s). post_id y = ?i \<longrightarrow> y = L" by (rule local(3))
  qed
  from completed have fin: "fst (mergeRemote envs 0 ?lp remotePosts s) = None"
    and s': "s' = snd (mergeRemote envs 0 ?lp remotePosts s)"
    and pushed: "pushed = pushLocal uid (touchedAll envs 0 ?lp remotePosts) ?lp"
    by (auto simp: reconcile_def Let_def split: option.splits)
  let ?m1 = "mergeRemote envs 0 ?lp before s"
  have split1: "mergeRemote envs 0 ?lp remotePosts s =
      (if fst ?m1 = None then mergeRemote envs ?k ?lp (R # after) (snd ?m1) else ?m1)"
    unfolding remote(1) using mergeRemote_append[of envs 0 ?lp before "R # after" s] by simp
  from fin split1 have m1: "fst ?m1 = None"
    by (cases "fst ?m1 = None") simp_all
  with split1 have total: "mergeRemote envs 0 ?lp remotePosts s
      = mergeRemote envs ?k ?lp (R # after) (snd ?m1)"
    by simp
  from remote(2) have before: "\<forall>r\<in>set before. post_id r \<noteq> ?i" and after: "\<forall>r\<in>set after. post_id r \<noteq> ?i"
    by auto
  have s1: "getPostById ?i (snd ?m1) = Some L"
    using mergeRemote_other_ids[OF before fresh, of 0 ?lp s] L_s by simp
  have nw: "newer R L = (tLocal < tRemote)"
    using stamps by (simp add: newer_def)
  have lookup: "getPostById ?i s'
      = Some (if tLocal < tRemote then R\<lparr>updatedAt := Some (now (envs ?k))\<rparr> else L)"
  proof (cases "tLocal < tRemote")
    case False
    with nw L_lp total have "mergeRemote envs 0 ?lp remotePosts s
        = mergeRemote envs (Suc ?k) ?lp after (snd ?m1)"
      by simp
    with s' mergeRemote_other_ids[OF after fresh, of "Suc ?k" ?lp "snd ?m1"] s1 False
    show ?thesis by simp
  next
    case True
    let ?u = "updatePost (envs ?k) R (snd ?m1)"
    show ?thesis
    proof (cases "fst ?u")
      case (Inl e)
      with True nw L_lp total have "fst (mergeRemote envs 0 ?lp remotePosts s) = Some e"
        by simp
      with fin show ?thesis by simp
    next
      case (Inr u)
      with True nw L_lp total have "mergeRemote envs 0 ?lp remotePosts s
          = mergeRemote envs (Suc ?k) ?lp after (snd ?u)"
        by simp
      with s' mergeRemote_other_ids[OF after fresh, of "Suc ?k" ?lp "snd ?u"]
        updatePost_same_id[OF Inr] True
      show ?thesis by simp
    qed
  qed
  have "R \<in> set remotePosts" using remote(1) by simp
  from touchedAll_member[OF this, of ?lp envs 0] obtain j where
    j: "touched ?lp (envs j) R \<in> set (touchedAll envs 0 ?lp remotePosts)"
    by blast
  have "post_id (touched ?lp (envs j) R) = ?i"
    using post_id_touched[OF L_lp] .
  from pushLocal_skips_matched[OF j this] pushed
  have "\<forall>q\<in>set pushed. post_id q \<noteq> ?i" by simp
  with lookup show ?thesis by blast
qed

theorem reconcile_timestamp_wins_witness:
  "reconcile (\<lambda>k. envAt 5) ''me'' [remoteNewer] storeA
     = (None,
        \<lparr>posts = [remoteNewer\<lparr>updatedAt := Some 5\<rparr>], tagsStore = [\<lparr>name = ''news'', count = 1\<rparr>]\<rparr>,
        [])
   \<and> getPostById ''a''
        \<lparr>posts = [remoteNewer\<lparr>updatedAt := Some 5\<rparr>], tagsStore = [\<lparr>name = ''news'', count = 1\<rparr>]\<rparr>
       = Some (remoteNewer\<lparr>updatedAt := Some 5\<rparr>)
   \<and> reconcile (\<lambda>k. envAt 5) ''me'' [remoteOlder] storeAC
       = (None, storeAC, [postC\<lparr>user_id := Some ''me''\<rparr>])
   \<and> getPostById ''a'' storeAC = Some postA
   \<and> list_all (\<lambda>q. post_id q \<noteq> ''a'') [postC\<lparr>user_id := Some ''me''\<rparr>]"
proof -
  have ida: "post_id remoteNewer = ''a''" "post_id remoteOlder = ''a''" "post_id postA = ''a''"
    by (simp_all add: example_defs)
  have stamps: "updatedAt postA = Some 1" "updatedAt remoteNewer = Some 2"
    "updatedAt remoteOlder = Some 0"
    by (simp_all add: example_defs)
  have fresh: "\<forall>k. uuid (envAt 5) \<noteq> ''a''"
    by (simp add: example_defs)
  have none: "\<forall>r\<in>set ([] @ []). post_id r \<noteq> ''a''"
    by simp
  have inA: "postA \<in> set (posts storeA)" "\<forall>p\<in>set (posts storeA). post_id p = ''a'' \<longrightarrow> p = postA"
    by (simp_all add: example_defs)
  have inAC: "postA \<in> set (posts storeAC)" "\<forall>p\<in>set (posts storeAC). post_id p = ''a'' \<longrightarrow> p = postA"
    by (simp_all add: example_defs)
  have c1: "reconcile (\<lambda>k. envAt 5) ''me'' [remoteNewer] storeA
     = (None,
        \<lparr>posts = [remoteNewer\<lparr>updatedAt := Some 5\<rparr>], tagsStore = [\<lparr>name = ''news'', count = 1\<rparr>]\<rparr>,
        [])"
    by (simp add: sync_defs query_defs example_defs operation_defs)
  have c2: "reconcile (\<lambda>k. envAt 5) ''me'' [remoteOlder] storeAC
       = (None, storeAC, [postC\<lparr>user_id := Some ''me''\<rparr>])"
    by (simp add: sync_defs query_defs example_defs operation_defs)
  have w1: "getPostById ''a''
        \<lparr>posts = [remoteNewer\<lparr>updatedAt := Some 5\<rparr>], tagsStore = [\<lparr>name = ''news'', count = 1\<rparr>]\<rparr>
       = Some (remoteNewer\<lparr>updatedAt := Some 5\<rparr>)"
    using reconcile_timestamp_wins [of postA storeA remoteNewer "[remoteNewer]" "[]" "[]" 1 2
        "\<lambda>k. envAt 5" "''me''" _ "[]"] inA stamps fresh none c1
    by (simp add: ida envAt_def)
  have w2: "getPostById ''a'' storeAC = Some postA
      \<and> (\<forall>q\<in>set [postC\<lparr>user_id := Some ''me''\<rparr>]. post_id q \<noteq> ''a'')"
    using reconcile_timestamp_wins [of postA storeAC remoteOlder "[remoteOlder]" "[]" "[]" 1 0
        "\<lambda>k. envAt 5" "''me''" storeAC "[postC\<lparr>user_id := Some ''me''\<rparr>]"] inAC stamps fresh none c2
    by (simp add: ida)
  from w1 w2 c1 c2 show ?thesis
    by simp
qed

end
